theory Spec2Isabelle
  imports Main "HOL-Library.Word" "HOL-Library.Multiset"
begin

section \<open>Garbage collection of pipeline activities (pkg/jx/cmd/gc_activities.go)\<close>

text \<open>
  The command \<open>jx gc activities\<close> lists the PipelineActivity resources of the
  development namespace and deletes those it no longer wants to keep. The method
  \<open>GCActivitiesOptions.Run\<close> is embedded below: the records loop (lines 110-146) as
  \<open>scan_activities\<close>, the loop over one pipeline's sorted build numbers (lines 153-166)
  as \<open>prune_builds\<close>, the loop over the map of pipelines (line 148) as
  \<open>prune_pipelines\<close>, and the whole method as \<open>Run\<close>.

  Go's \<open>int\<close> is taken at its width on 64-bit platforms, a \<open>64 word\<close>. A
  \<open>time.Time\<close> is an \<open>int\<close>, the nanoseconds since the epoch: the timestamps of the
  cluster lie in the years 0 to 9999, and a \<open>time.Duration\<close> spans less than 293 years,
  so \<open>Time.Add\<close> never leaves the range that \<open>time.Time\<close> represents. Strings are
  byte strings, as in Go.
\<close>

subsection \<open>Data model\<close>

type_synonym go_int = "64 word"

type_synonym Time = int

record PipelineActivity =
  Name :: string
  Pipeline :: string
  Build :: string
  CompletedTimestamp :: "Time option"

record GCActivitiesOptions =
  RevisionHistoryLimit :: go_int
  PullRequestHours :: go_int

text \<open>
  Every call of \<open>Delete\<close> that succeeded is recorded with the criterion that issued it:
  the deletions of a run, in the order in which the run made them.
\<close>

datatype reason = AgeExpired | Orphaned | OverLimit

type_synonym deletion = "string \<times> reason"

text \<open>
  What ends a run early. \<open>CollaboratorError\<close> is an error of one of the calls before
  the loops (client, list, mode, job registry), \<open>DeleteError\<close> the error of a
  \<open>Delete\<close> in the records loop, returned as it is (lines 116 and 134),
  \<open>ConversionError\<close> the error of \<open>strconv.Atoi\<close> (line 141),
  \<open>FailedToDeleteActivity\<close> the wrapped error of line 162, and
  \<open>IndexOutOfRange i n\<close> the run-time panic of \<open>builds[i]\<close> on a slice of length
  \<open>n\<close>.
\<close>

datatype error =
    CollaboratorError string
  | DeleteError string
  | ConversionError string
  | FailedToDeleteActivity string
  | IndexOutOfRange nat nat

text \<open>
  The collaborators of a run. \<open>Delete names n\<close> tells whether the store deletes
  \<open>n\<close> without error after the deletions \<open>names\<close> this run has already made (a
  deterministic store's answer depends on nothing else). \<open>Now i\<close> is the reading of
  \<open>time.Now()\<close> taken while the records loop examines the record at index \<open>i\<close>.
  The calls before the loops return their result or the message of their error.
  \<open>rangeOrder\<close> is the order in which \<open>range\<close> enumerates the entries of the map
  \<open>activityBuilds\<close>, which Go leaves unspecified. \<open>unicodeToLower\<close> is what
  \<open>strings.ToLower\<close> returns on a string that is not pure ASCII (the Unicode case
  tables are not part of this repository). \<open>jobNames\<close> stands for the calls
  \<open>JenkinsClient\<close>, \<open>GetJobs\<close> and \<open>GetAllPipelineJobNames\<close> of lines 91-105,
  \<open>listActivities\<close> for lines 66-75.
\<close>

record world =
  listActivities :: "string + PipelineActivity list"
  IsProw :: "string + bool"
  jobNames :: "string + string list"
  Delete :: "string list \<Rightarrow> string \<Rightarrow> bool"
  Now :: "nat \<Rightarrow> Time"
  rangeOrder :: "(string \<times> int list) list \<Rightarrow> (string \<times> int list) list"
  unicodeToLower :: "string \<Rightarrow> string"

subsection \<open>Library functions the method calls\<close>

text \<open>\<open>strings.Contains(s, substr)\<close>.\<close>

fun Contains :: "string \<Rightarrow> string \<Rightarrow> bool" where
  "Contains [] substr = (substr = [])"
| "Contains (c # s) substr = (take (length substr) (c # s) = substr \<or> Contains s substr)"

text \<open>\<open>strings.Replace(s, old, new, -1)\<close> for one-byte \<open>old\<close> and \<open>new\<close>.\<close>

definition Replace :: "string \<Rightarrow> char \<Rightarrow> char \<Rightarrow> string" where
  "Replace s old new = map (\<lambda>c. if c = old then new else c) s"

text \<open>
  \<open>strings.ToLower\<close>: on a string of ASCII bytes only, every byte from \<open>A\<close> to
  \<open>Z\<close> is replaced by its lower-case letter; any other string goes through the
  Unicode mapping.
\<close>

definition ascii_lower :: "char \<Rightarrow> char" where
  "ascii_lower c =
     (case map_of (zip ''ABCDEFGHIJKLMNOPQRSTUVWXYZ'' ''abcdefghijklmnopqrstuvwxyz'') c of
        None \<Rightarrow> c
      | Some l \<Rightarrow> l)"

definition ToLower :: "(string \<Rightarrow> string) \<Rightarrow> string \<Rightarrow> string" where
  "ToLower unicode s = (if list_all (\<lambda>c. \<not> digit7 c) s then map ascii_lower s else unicode s)"

text \<open>The verb \<open>%v\<close> of \<open>fmt.Sprintf\<close> on an \<open>int\<close>: decimal, with a minus sign.\<close>

fun digits :: "nat \<Rightarrow> string" where
  "digits n =
     (if n < 10 then [''0123456789'' ! n]
      else digits (n div 10) @ [''0123456789'' ! (n mod 10)])"

declare digits.simps [simp del]

definition FormatInt :: "int \<Rightarrow> string" where
  "FormatInt v = (if v < 0 then CHR ''-'' # digits (nat (- v)) else digits (nat v))"

text \<open>
  \<open>strconv.Atoi\<close>: an optional sign, then one or more decimal digits and nothing
  else; a value outside the 64-bit range is an error too.
\<close>

definition digit_of :: "char \<Rightarrow> nat option" where
  "digit_of c = map_of (zip ''0123456789'' [0, 1, 2, 3, 4, 5, 6, 7, 8, 9]) c"

fun parse_digits :: "string \<Rightarrow> nat \<Rightarrow> nat option" where
  "parse_digits [] acc = Some acc"
| "parse_digits (c # cs) acc =
     (case digit_of c of None \<Rightarrow> None | Some d \<Rightarrow> parse_digits cs (acc * 10 + d))"

definition Atoi :: "string \<Rightarrow> int option" where
  "Atoi s =
     (let neg = (take 1 s = ''-'');
          ds = (if take 1 s = ''-'' \<or> take 1 s = ''+'' then drop 1 s else s)
      in if ds = [] then None
         else (case parse_digits ds 0 of
                 None \<Rightarrow> None
               | Some n \<Rightarrow>
                   (let v = (if neg then - int n else int n)
                    in if - (2 ^ 63) \<le> v \<and> v < 2 ^ 63 then Some v else None)))"

subsection \<open>The method\<close>

text \<open>\<open>time.Hour\<close>, a \<open>time.Duration\<close>: 64-bit nanoseconds.\<close>

definition Hour :: go_int where
  "Hour = 3600000000000"

text \<open>
  Lines 112-113: the activity is a pull request's and completed more than
  \<open>PullRequestHours\<close> ago. The product \<open>time.Duration(o.PullRequestHours)*time.Hour\<close>
  is a 64-bit multiplication.
\<close>

definition pr_expired :: "go_int \<Rightarrow> Time \<Rightarrow> PipelineActivity \<Rightarrow> bool" where
  "pr_expired hours now a =
     (Contains (Name a) ''-pr-'' \<and>
      (case CompletedTimestamp a of
         None \<Rightarrow> False
       | Some t \<Rightarrow> t + sint (hours * Hour) < now))"

text \<open>Lines 124-130: some job of the registry has the activity's pipeline as its name.\<close>

definition matched :: "string list \<Rightarrow> PipelineActivity \<Rightarrow> bool" where
  "matched jobs a = list_ex (\<lambda>j. Pipeline a = j) jobs"

text \<open>
  Line 145: \<open>activityBuilds[p] = append(activityBuilds[p], b)\<close>. The map is kept as
  an association list with one entry for each key.
\<close>

fun append_build :: "string \<Rightarrow> int \<Rightarrow> (string \<times> int list) list \<Rightarrow> (string \<times> int list) list" where
  "append_build p b [] = [(p, [b])]"
| "append_build p b ((q, bs) # m) =
     (if p = q then (q, bs @ [b]) # m else (q, bs) # append_build p b m)"

text \<open>Lines 110-146, from the record at index \<open>i\<close> on.\<close>

fun scan_activities ::
  "world \<Rightarrow> GCActivitiesOptions \<Rightarrow> bool \<Rightarrow> string list \<Rightarrow> nat \<Rightarrow> PipelineActivity list \<Rightarrow>
   (string \<times> int list) list \<Rightarrow> deletion list \<Rightarrow> error option \<times> (string \<times> int list) list \<times> deletion list" where
  "scan_activities w opts prowEnabled jobs i [] m tr = (None, m, tr)"
| "scan_activities w opts prowEnabled jobs i (a # items) m tr =
     (if pr_expired (PullRequestHours opts) (Now w i) a then
        (if Delete w (map fst tr) (Name a)
         then scan_activities w opts prowEnabled jobs (i + 1) items m (tr @ [(Name a, AgeExpired)])
         else (Some (DeleteError (Name a)), m, tr))
      else
        (case (if \<not> prowEnabled \<and> \<not> matched jobs a
               then (if Delete w (map fst tr) (Name a)
                     then Inr (tr @ [(Name a, Orphaned)])
                     else Inl (DeleteError (Name a)))
               else Inr tr) of
           Inl e \<Rightarrow> (Some e, m, tr)
         | Inr tr' \<Rightarrow>
             (case Atoi (Build a) of
                None \<Rightarrow> (Some (ConversionError (Build a)), m, tr')
              | Some buildNumber \<Rightarrow>
                  scan_activities w opts prowEnabled jobs (i + 1) items
                    (append_build (Pipeline a) buildNumber m) tr')))"

text \<open>Lines 155-158.\<close>

definition activityName :: "world \<Rightarrow> string \<Rightarrow> int \<Rightarrow> string" where
  "activityName w pipeline build =
     ToLower (unicodeToLower w)
       (Replace (Replace (pipeline @ ''-'' @ FormatInt build) CHR ''/'' CHR ''-'') CHR ''_'' CHR ''-'')"

text \<open>
  Lines 153-166 on the sorted slice \<open>builds\<close>, from index \<open>i\<close> on. The condition of
  the loop compares two signed 64-bit values.
\<close>

function prune_builds ::
  "world \<Rightarrow> go_int \<Rightarrow> string \<Rightarrow> int list \<Rightarrow> nat \<Rightarrow> deletion list \<Rightarrow> error option \<times> deletion list" where
  "prune_builds w limit pipeline builds i tr =
     (if sint (word_of_nat i :: go_int) < sint (word_of_nat (length builds) - limit)
      then
        (if i < length builds then
           (if Delete w (map fst tr) (activityName w pipeline (builds ! i))
            then prune_builds w limit pipeline builds (i + 1)
                   (tr @ [(activityName w pipeline (builds ! i), OverLimit)])
            else (Some (FailedToDeleteActivity (activityName w pipeline (builds ! i))), tr))
         else (Some (IndexOutOfRange i (length builds)), tr))
      else (None, tr))"
  by pat_completeness auto
termination
  by (relation "measure (\<lambda>(w, limit, pipeline, builds, i, tr). length builds - i)") auto

declare prune_builds.simps [simp del]

text \<open>Lines 148-167 over the entries of the map in the order \<open>range\<close> gives them.\<close>

fun prune_pipelines ::
  "world \<Rightarrow> go_int \<Rightarrow> (string \<times> int list) list \<Rightarrow> deletion list \<Rightarrow> error option \<times> deletion list" where
  "prune_pipelines w limit [] tr = (None, tr)"
| "prune_pipelines w limit ((pipeline, builds) # rest) tr =
     (case prune_builds w limit pipeline (sort builds) 0 tr of
        (None, tr') \<Rightarrow> prune_pipelines w limit rest tr'
      | (Some e, tr') \<Rightarrow> (Some e, tr'))"

text \<open>Lines 108-169: the two loops, given the mode and the job names.\<close>

definition gcActivities ::
  "world \<Rightarrow> GCActivitiesOptions \<Rightarrow> bool \<Rightarrow> string list \<Rightarrow> PipelineActivity list \<Rightarrow>
   error option \<times> deletion list" where
  "gcActivities w opts prowEnabled jobs items =
     (case scan_activities w opts prowEnabled jobs 0 items [] [] of
        (Some e, m, tr) \<Rightarrow> (Some e, tr)
      | (None, m, tr) \<Rightarrow> prune_pipelines w (RevisionHistoryLimit opts) (rangeOrder w m) tr)"

text \<open>
  Lines 65-170. The job names are fetched only when prow is not enabled; otherwise
  \<open>jobNames\<close> stays the nil slice.
\<close>

definition Run :: "world \<Rightarrow> GCActivitiesOptions \<Rightarrow> error option \<times> deletion list" where
  "Run w opts =
     (case listActivities w of
        Inl msg \<Rightarrow> (Some (CollaboratorError msg), [])
      | Inr items \<Rightarrow>
          if length items = 0 then (None, [])
          else (case IsProw w of
                  Inl msg \<Rightarrow> (Some (CollaboratorError msg), [])
                | Inr prowEnabled \<Rightarrow>
                    (case (if \<not> prowEnabled then jobNames w else Inr []) of
                       Inl msg \<Rightarrow> (Some (CollaboratorError msg), [])
                     | Inr jobs \<Rightarrow> gcActivities w opts prowEnabled jobs items)))"

subsection \<open>What a run deletes, stated on the records\<close>

text \<open>
  The deletions of the records loop, read off the records: an expired pull-request
  activity is deleted for its age; any other activity is deleted as an orphan when prow is
  not enabled and no job has its pipeline.
\<close>

fun early_deletions ::
  "world \<Rightarrow> GCActivitiesOptions \<Rightarrow> bool \<Rightarrow> string list \<Rightarrow> nat \<Rightarrow> PipelineActivity list \<Rightarrow> deletion list" where
  "early_deletions w opts prowEnabled jobs i [] = []"
| "early_deletions w opts prowEnabled jobs i (a # items) =
     (if pr_expired (PullRequestHours opts) (Now w i) a then [(Name a, AgeExpired)]
      else if \<not> prowEnabled \<and> \<not> matched jobs a then [(Name a, Orphaned)]
      else []) @ early_deletions w opts prowEnabled jobs (i + 1) items"


text \<open>The names deleted for one reason, in the order of the run.\<close>

definition marked :: "reason \<Rightarrow> deletion list \<Rightarrow> string list" where
  "marked r plan = map fst (filter (\<lambda>d. snd d = r) plan)"


text \<open>
  The deletions of the second loop for one entry of the map: the first
  \<open>len(builds) - RevisionHistoryLimit\<close> build numbers in ascending order.
\<close>

definition over_limit :: "world \<Rightarrow> go_int \<Rightarrow> string \<times> int list \<Rightarrow> deletion list" where
  "over_limit w limit g =
     map (\<lambda>b. (activityName w (fst g) b, OverLimit))
       (take (nat (sint (word_of_nat (length (snd g)) - limit :: go_int))) (sort (snd g)))"


text \<open>The pairs of a pipeline and one of its collected build numbers.\<close>

definition builds_in :: "(string \<times> int list) list \<Rightarrow> (string \<times> int) set" where
  "builds_in m = (\<Union>g\<in>set m. {fst g} \<times> set (snd g))"


text \<open>
  An order of enumeration is an order of the entries of the map: each entry once.
\<close>

definition range_valid :: "world \<Rightarrow> bool" where
  "range_valid w = (\<forall>m. mset (rangeOrder w m) = mset m)"

text \<open>
  The name of the activity to delete as the specification words it: the lower case of
  the pipeline, a hyphen and the build number, with every slash and underscore replaced by
  a hyphen.
\<close>

definition target_name :: "(string \<Rightarrow> string) \<Rightarrow> string \<Rightarrow> int \<Rightarrow> string" where
  "target_name unicode pipeline buildNumber =
     ToLower unicode
       (map (\<lambda>c. if c = CHR ''/'' \<or> c = CHR ''_'' then CHR ''-'' else c)
          (pipeline @ ''-'' @ FormatInt buildNumber))"

subsection \<open>Worlds for concrete runs\<close>

text \<open>
  A world whose store deletes whatever it is asked to, with the clock readings
  \<open>clock\<close> and the map enumerated in the order of first insertion.
\<close>

definition stub_world :: "(nat \<Rightarrow> Time) \<Rightarrow> world" where
  "stub_world clock =
     \<lparr> listActivities = Inr [], IsProw = Inr False, jobNames = Inr [],
       Delete = (\<lambda>_ _. True), Now = clock, rangeOrder = id, unicodeToLower = id \<rparr>"

text \<open>
  A world whose store holds the activities \<open>names\<close>: a delete succeeds on a name that
  is there and that this run has not deleted yet, and fails otherwise (not found).
\<close>

definition store_world :: "string list \<Rightarrow> (nat \<Rightarrow> Time) \<Rightarrow> world" where
  "store_world names clock =
     \<lparr> listActivities = Inr [], IsProw = Inr False, jobNames = Inr [],
       Delete = (\<lambda>deleted n. n \<in> set names \<and> n \<notin> set deleted), Now = clock,
       rangeOrder = id, unicodeToLower = id \<rparr>"

lemmas run_defs =
  Run_def gcActivities_def pr_expired_def matched_def Atoi_def digit_of_def Hour_def
  prune_builds.simps activityName_def ToLower_def Replace_def FormatInt_def digits.simps
  ascii_lower_def stub_world_def store_world_def

section \<open>Properties\<close>

subsection \<open>Signed 64-bit arithmetic\<close>

lemma sint_word_of_nat: "n < 2 ^ 63 \<Longrightarrow> sint (word_of_nat n :: go_int) = int n"
  by (simp add: signed_of_nat signed_take_bit_int_eq_self)

lemma loop_bound_exact:
  assumes "n < 2 ^ 63" and "- (2 ^ 63) \<le> int n - sint limit" and "int n - sint limit < 2 ^ 63"
  shows "sint (word_of_nat n - limit :: go_int) = int n - sint limit"
proof -
  have "sint (word_of_nat n - limit :: go_int) = signed_take_bit 63 (sint (word_of_nat n :: go_int) - sint limit)"
    by (simp add: sint_word_ariths)
  also have "\<dots> = signed_take_bit 63 (int n - sint limit)"
    using assms(1) by (simp add: sint_word_of_nat)
  also have "\<dots> = int n - sint limit"
    using assms(2,3) by (simp add: signed_take_bit_int_eq_self)
  finally show ?thesis .
qed

lemma loop_bound_le_length:
  assumes "0 \<le> sint limit"
  shows "sint (word_of_nat n - limit :: go_int) \<le> int n"
proof (cases "n < 2 ^ 63")
  case True
  have "sint limit < 2 ^ 63" using sint_lt [of limit] by simp
  then have "sint (word_of_nat n - limit :: go_int) = int n - sint limit"
    using True assms by (intro loop_bound_exact) auto
  then show ?thesis using assms by simp
next
  case False
  have "sint (word_of_nat n - limit :: go_int) < 2 ^ 63"
    using sint_lt [of "word_of_nat n - limit :: go_int"] by simp
  moreover have "(2::int) ^ 63 \<le> int n"
    using False by (simp add: not_less flip: of_nat_le_iff)
  ultimately show ?thesis by linarith
qed

lemma duration_exact:
  assumes "- (2 ^ 63) \<le> sint hours * 3600000000000" and "sint hours * 3600000000000 < 2 ^ 63"
  shows "sint (hours * Hour) = sint hours * 3600000000000"
proof -
  have "sint (hours * Hour) = signed_take_bit 63 (sint hours * sint Hour)"
    by (simp add: sint_word_ariths)
  also have "sint Hour = 3600000000000" by (simp add: Hour_def)
  finally show ?thesis using assms by (simp add: signed_take_bit_int_eq_self)
qed

subsection \<open>The loop over one pipeline's builds\<close>

lemma prune_builds_ok:
  assumes "\<forall>t n. Delete w t n"
    and "sint (word_of_nat (length bs) - limit :: go_int) \<le> int (length bs)"
    and "i < 2 ^ 63"
  shows "prune_builds w limit p bs i tr =
           (None, tr @ map (\<lambda>b. (activityName w p b, OverLimit))
                         (drop i (take (nat (sint (word_of_nat (length bs) - limit :: go_int))) bs)))"
  using assms
proof (induction w limit p bs i tr rule: prune_builds.induct)
  case (1 w limit p bs i tr)
  let ?B = "sint (word_of_nat (length bs) - limit :: go_int)"
  have si: "sint (word_of_nat i :: go_int) = int i"
    using "1.prems"(3) by (rule sint_word_of_nat)
  show ?case
  proof (cases "int i < ?B")
    case True
    have B63: "?B < 2 ^ 63" using sint_lt [of "word_of_nat (length bs) - limit :: go_int"] by simp
    have ilen: "i < length bs" using True "1.prems"(2) by linarith
    have "int (i + 1) < 2 ^ 63" using True B63 by linarith
    then have i1: "i + 1 < 2 ^ 63" by (simp flip: of_nat_less_iff)
    have del: "Delete w (map fst tr) (activityName w p (bs ! i))" using "1.prems"(1) by simp
    have c: "sint (word_of_nat i :: go_int) < ?B" using True si by simp
    have IH: "prune_builds w limit p bs (i + 1) (tr @ [(activityName w p (bs ! i), OverLimit)]) =
        (None, (tr @ [(activityName w p (bs ! i), OverLimit)]) @ map (\<lambda>b. (activityName w p b, OverLimit))
                         (drop (i + 1) (take (nat ?B) bs)))"
      using "1.IH" [OF c ilen del "1.prems"(1) "1.prems"(2) i1] .
    have it: "i < length (take (nat ?B) bs)" using True ilen by simp
    have "drop i (take (nat ?B) bs) = bs ! i # drop (i + 1) (take (nat ?B) bs)"
      using Cons_nth_drop_Suc [OF it] True by simp
    then show ?thesis
      using IH c ilen del by (subst prune_builds.simps) simp
  next
    case False
    then have "drop i (take (nat ?B) bs) = []" by simp
    then show ?thesis using False si by (subst prune_builds.simps) simp
  qed
qed

lemma prune_builds_trace:
  "\<exists>k. snd (prune_builds w limit p bs i tr) =
        tr @ map (\<lambda>b. (activityName w p b, OverLimit)) (take k (drop i bs))"
proof (induction w limit p bs i tr rule: prune_builds.induct)
  case (1 w limit p bs i tr)
  let ?c = "sint (word_of_nat i :: go_int) < sint (word_of_nat (length bs) - limit :: go_int)"
  let ?d = "Delete w (map fst tr) (activityName w p (bs ! i))"
  show ?case
  proof (cases "?c \<and> i < length bs \<and> ?d")
    case True
    then obtain k where k: "snd (prune_builds w limit p bs (i + 1) (tr @ [(activityName w p (bs ! i), OverLimit)])) =
        (tr @ [(activityName w p (bs ! i), OverLimit)]) @ map (\<lambda>b. (activityName w p b, OverLimit)) (take k (drop (i + 1) bs))"
      using "1.IH" by blast
    have "drop i bs = bs ! i # drop (i + 1) bs" using True Cons_nth_drop_Suc [of i bs] by simp
    then have "take (Suc k) (drop i bs) = bs ! i # take k (drop (i + 1) bs)" by simp
    then have "snd (prune_builds w limit p bs i tr) =
        tr @ map (\<lambda>b. (activityName w p b, OverLimit)) (take (Suc k) (drop i bs))"
      using True k by (subst prune_builds.simps) simp
    then show ?thesis by blast
  next
    case False
    then have "snd (prune_builds w limit p bs i tr) = tr @ map (\<lambda>b. (activityName w p b, OverLimit)) (take 0 (drop i bs))"
      by (subst prune_builds.simps) auto
    then show ?thesis by blast
  qed
qed

lemma prune_builds_error:
  "fst (prune_builds w limit p bs i tr) = Some e \<Longrightarrow>
     (\<exists>n. e = FailedToDeleteActivity n) \<or> (\<exists>j n. e = IndexOutOfRange j n)"
proof (induction w limit p bs i tr rule: prune_builds.induct)
  case (1 w limit p bs i tr)
  then show ?case
    by (subst (asm) (2) prune_builds.simps) (auto split: if_splits)
qed

lemma prune_builds_no_panic:
  assumes "0 \<le> sint limit" and "i < 2 ^ 63"
  shows "fst (prune_builds w limit p bs i tr) \<noteq> Some (IndexOutOfRange j n)"
  using assms
proof (induction w limit p bs i tr rule: prune_builds.induct)
  case (1 w limit p bs i tr)
  let ?B = "sint (word_of_nat (length bs) - limit :: go_int)"
  have si: "sint (word_of_nat i :: go_int) = int i"
    using "1.prems"(2) by (rule sint_word_of_nat)
  show ?case
  proof (cases "sint (word_of_nat i :: go_int) < ?B")
    case True
    have "?B \<le> int (length bs)" using "1.prems"(1) by (rule loop_bound_le_length)
    then have ilen: "i < length bs" using True si by linarith
    have "?B < 2 ^ 63" using sint_lt [of "word_of_nat (length bs) - limit :: go_int"] by simp
    then have "int (i + 1) < 2 ^ 63" using True si by linarith
    then have i1: "i + 1 < 2 ^ 63" by (simp flip: of_nat_less_iff)
    show ?thesis
    proof (cases "Delete w (map fst tr) (activityName w p (bs ! i))")
      case del: True
      show ?thesis
        using "1.IH" [OF True ilen del "1.prems"(1) i1] True ilen del
        by (subst prune_builds.simps) simp
    next
      case False
      then show ?thesis using True ilen by (subst prune_builds.simps) simp
    qed
  next
    case False
    then show ?thesis by (subst prune_builds.simps) simp
  qed
qed

lemma prune_builds_panics:
  assumes "\<forall>t n. Delete w t n" and "sint limit < 0" and "int (length bs) - sint limit < 2 ^ 63"
    and "i \<le> length bs"
  shows "fst (prune_builds w limit p bs i tr) = Some (IndexOutOfRange (length bs) (length bs))"
  using assms
proof (induction w limit p bs i tr rule: prune_builds.induct)
  case (1 w limit p bs i tr)
  let ?B = "sint (word_of_nat (length bs) - limit :: go_int)"
  have len63: "length bs < 2 ^ 63"
  proof -
    have "int (length bs) < 2 ^ 63" using "1.prems"(2,3) by linarith
    then show ?thesis by (simp flip: of_nat_less_iff)
  qed
  have i63: "i < 2 ^ 63" using len63 "1.prems"(4) by linarith
  have si: "sint (word_of_nat i :: go_int) = int i" using i63 by (rule sint_word_of_nat)
  have B: "?B = int (length bs) - sint limit"
    using len63 "1.prems"(2,3) by (intro loop_bound_exact) auto
  have c: "sint (word_of_nat i :: go_int) < ?B" using si B "1.prems"(2,4) by linarith
  show ?case
  proof (cases "i < length bs")
    case True
    have del: "Delete w (map fst tr) (activityName w p (bs ! i))" using "1.prems"(1) by simp
    have "i + 1 \<le> length bs" using True by simp
    from "1.IH" [OF c True del "1.prems"(1-3) this] show ?thesis
      using c True del by (subst prune_builds.simps) simp
  next
    case False
    then have "i = length bs" using "1.prems"(4) by simp
    then show ?thesis using c by (subst prune_builds.simps) simp
  qed
qed

subsection \<open>The loop over the records\<close>

lemma marked_append [simp]: "marked r (xs @ ys) = marked r xs @ marked r ys"
  by (simp add: marked_def)

lemma marked_Nil [simp]: "marked r [] = []"
  by (simp add: marked_def)

lemma marked_Cons [simp]: "marked r ((n, r') # xs) = (if r' = r then n # marked r xs else marked r xs)"
  by (simp add: marked_def)

lemma scan_Cons_expired:
  "pr_expired (PullRequestHours opts) (Now w i) a \<Longrightarrow> Delete w (map fst tr) (Name a) \<Longrightarrow>
     scan_activities w opts prow jobs i (a # items) m tr =
     scan_activities w opts prow jobs (Suc i) items m (tr @ [(Name a, AgeExpired)])"
  by simp

lemma scan_Cons_kept:
  "\<not> pr_expired (PullRequestHours opts) (Now w i) a \<Longrightarrow> Atoi (Build a) = Some b \<Longrightarrow>
   (\<not> prow \<and> \<not> matched jobs a \<longrightarrow> Delete w (map fst tr) (Name a)) \<Longrightarrow>
     scan_activities w opts prow jobs i (a # items) m tr =
     scan_activities w opts prow jobs (Suc i) items (append_build (Pipeline a) b m)
       (tr @ (if \<not> prow \<and> \<not> matched jobs a then [(Name a, Orphaned)] else []))"
  by simp

lemma scan_Cons_bad:
  "\<not> pr_expired (PullRequestHours opts) (Now w i) a \<Longrightarrow> Atoi (Build a) = None \<Longrightarrow>
   (\<not> prow \<and> \<not> matched jobs a \<longrightarrow> Delete w (map fst tr) (Name a)) \<Longrightarrow>
     scan_activities w opts prow jobs i (a # items) m tr =
     (Some (ConversionError (Build a)), m,
      tr @ (if \<not> prow \<and> \<not> matched jobs a then [(Name a, Orphaned)] else []))"
  by simp

lemma scan_activities_trace:
  "scan_activities w opts prow jobs i items m tr = (None, m', tr') \<Longrightarrow>
     tr' = tr @ early_deletions w opts prow jobs i items"
proof (induction items arbitrary: i m tr)
  case Nil
  then show ?case by simp
next
  case (Cons a items)
  show ?case
  proof (cases "pr_expired (PullRequestHours opts) (Now w i) a")
    case True
    with Cons.prems have "scan_activities w opts prow jobs (i + 1) items m (tr @ [(Name a, AgeExpired)]) = (None, m', tr')"
      by (simp split: if_splits)
    from Cons.IH [OF this] True show ?thesis by simp
  next
    case False
    show ?thesis
    proof (cases "\<not> prow \<and> \<not> matched jobs a")
      case True
      with False Cons.prems obtain b where
        "scan_activities w opts prow jobs (i + 1) items (append_build (Pipeline a) b m) (tr @ [(Name a, Orphaned)]) = (None, m', tr')"
        by (auto split: if_splits option.splits)
      from Cons.IH [OF this] False True show ?thesis by simp
    next
      case nomark: False
      with False Cons.prems obtain b where
        "scan_activities w opts prow jobs (i + 1) items (append_build (Pipeline a) b m) tr = (None, m', tr')"
        by (auto split: if_splits option.splits)
      from Cons.IH [OF this] False nomark show ?thesis by auto
    qed
  qed
qed

lemma scan_activities_error:
  "fst (scan_activities w opts prow jobs i items m tr) = Some e \<Longrightarrow>
     (\<exists>n. e = DeleteError n) \<or> (\<exists>s. e = ConversionError s)"
proof (induction items arbitrary: i m tr)
  case Nil
  then show ?case by simp
next
  case (Cons a items)
  then show ?case
    by (auto split: if_splits sum.splits option.splits)
qed

lemma scan_activities_append:
  "scan_activities w opts prow jobs i pre m tr = (None, m', tr') \<Longrightarrow>
     scan_activities w opts prow jobs i (pre @ rest) m tr =
     scan_activities w opts prow jobs (i + length pre) rest m' tr'"
proof (induction pre arbitrary: i m tr)
  case Nil
  then show ?case by simp
next
  case (Cons a pre)
  then show ?case
    by (auto split: if_splits sum.splits option.splits)
qed

lemma scan_activities_ok:
  assumes "\<forall>t n. Delete w t n"
    and "\<forall>j<length items. pr_expired (PullRequestHours opts) (Now w (i + j)) (items ! j) \<or>
            Atoi (Build (items ! j)) \<noteq> None"
  shows "fst (scan_activities w opts prow jobs i items m tr) = None"
  using assms(2)
proof (induction items arbitrary: i m tr)
  case Nil
  then show ?case by simp
next
  case (Cons a items)
  have head: "pr_expired (PullRequestHours opts) (Now w i) a \<or> Atoi (Build a) \<noteq> None"
    using Cons.prems by (auto dest: spec [of _ 0])
  have tail: "\<forall>j<length items. pr_expired (PullRequestHours opts) (Now w (i + 1 + j)) (items ! j) \<or>
            Atoi (Build (items ! j)) \<noteq> None"
  proof (intro allI impI)
    fix j assume "j < length items"
    then show "pr_expired (PullRequestHours opts) (Now w (i + 1 + j)) (items ! j) \<or>
            Atoi (Build (items ! j)) \<noteq> None"
      using Cons.prems [rule_format, of "Suc j"] by simp
  qed
  show ?case
    using head Cons.IH [OF tail] assms(1) by (auto split: option.splits)
qed

lemma scan_activities_conversion:
  assumes "\<forall>t n. Delete w t n"
  shows "(\<exists>s. fst (scan_activities w opts prow jobs i items m tr) = Some (ConversionError s)) \<longleftrightarrow>
         (\<exists>j<length items. \<not> pr_expired (PullRequestHours opts) (Now w (i + j)) (items ! j) \<and>
            Atoi (Build (items ! j)) = None)"
proof (induction items arbitrary: i m tr)
  case Nil
  then show ?case by simp
next
  case (Cons a items)
  let ?P = "\<lambda>i items. \<exists>j<length items. \<not> pr_expired (PullRequestHours opts) (Now w (i + j)) (items ! j) \<and>
            Atoi (Build (items ! j)) = None"
  have shift: "?P i (a # items) \<longleftrightarrow>
      (\<not> pr_expired (PullRequestHours opts) (Now w i) a \<and> Atoi (Build a) = None) \<or> ?P (i + 1) items"
  proof
    assume "?P i (a # items)"
    then obtain j where j: "j < length (a # items)"
      "\<not> pr_expired (PullRequestHours opts) (Now w (i + j)) ((a # items) ! j)"
      "Atoi (Build ((a # items) ! j)) = None" by blast
    show "(\<not> pr_expired (PullRequestHours opts) (Now w i) a \<and> Atoi (Build a) = None) \<or> ?P (i + 1) items"
    proof (cases j)
      case 0
      then show ?thesis using j by simp
    next
      case (Suc k)
      then have "k < length items \<and> \<not> pr_expired (PullRequestHours opts) (Now w (i + 1 + k)) (items ! k) \<and>
            Atoi (Build (items ! k)) = None" using j by simp
      then show ?thesis by blast
    qed
  next
    assume r: "(\<not> pr_expired (PullRequestHours opts) (Now w i) a \<and> Atoi (Build a) = None) \<or> ?P (i + 1) items"
    show "?P i (a # items)"
    proof (rule disjE [OF r])
      assume "\<not> pr_expired (PullRequestHours opts) (Now w i) a \<and> Atoi (Build a) = None"
      then have "0 < length (a # items) \<and> \<not> pr_expired (PullRequestHours opts) (Now w (i + 0)) ((a # items) ! 0) \<and>
            Atoi (Build ((a # items) ! 0)) = None" by simp
      then show ?thesis by blast
    next
      assume "?P (i + 1) items"
      then obtain k where "k < length items" "\<not> pr_expired (PullRequestHours opts) (Now w (i + 1 + k)) (items ! k)"
        "Atoi (Build (items ! k)) = None" by blast
      then have "Suc k < length (a # items) \<and> \<not> pr_expired (PullRequestHours opts) (Now w (i + Suc k)) ((a # items) ! Suc k) \<and>
            Atoi (Build ((a # items) ! Suc k)) = None" by simp
      then show ?thesis by blast
    qed
  qed
  have IH: "\<And>m tr. (\<exists>s. fst (scan_activities w opts prow jobs (i + 1) items m tr) = Some (ConversionError s)) \<longleftrightarrow> ?P (i + 1) items"
    by (rule Cons.IH)
  show ?case
    unfolding shift
  proof (cases "pr_expired (PullRequestHours opts) (Now w i) a")
    case True
    then show "(\<exists>s. fst (scan_activities w opts prow jobs i (a # items) m tr) = Some (ConversionError s)) \<longleftrightarrow>
      (\<not> pr_expired (PullRequestHours opts) (Now w i) a \<and> Atoi (Build a) = None) \<or> ?P (i + 1) items"
      using IH assms by simp
  next
    case False
    show "(\<exists>s. fst (scan_activities w opts prow jobs i (a # items) m tr) = Some (ConversionError s)) \<longleftrightarrow>
      (\<not> pr_expired (PullRequestHours opts) (Now w i) a \<and> Atoi (Build a) = None) \<or> ?P (i + 1) items"
    proof (cases "Atoi (Build a)")
      case None
      with False assms show ?thesis by (simp add: scan_Cons_bad del: scan_activities.simps)
    next
      case (Some b)
      have e: "scan_activities w opts prow jobs i (a # items) m tr =
        scan_activities w opts prow jobs (i + 1) items (append_build (Pipeline a) b m)
          (tr @ (if \<not> prow \<and> \<not> matched jobs a then [(Name a, Orphaned)] else []))"
        using False Some assms by (simp add: scan_Cons_kept del: scan_activities.simps)
      show ?thesis unfolding e using IH Some by simp
    qed
  qed
qed

subsection \<open>The loop over the pipelines\<close>

lemma prune_pipelines_marked:
  "r \<noteq> OverLimit \<Longrightarrow> marked r (snd (prune_pipelines w limit gs tr)) = marked r tr"
proof (induction gs arbitrary: tr)
  case Nil
  then show ?case by simp
next
  case (Cons g gs)
  obtain p bs where g: "g = (p, bs)" by (cases g)
  obtain e tr' where pb: "prune_builds w limit p (sort bs) 0 tr = (e, tr')"
    by (cases "prune_builds w limit p (sort bs) 0 tr")
  obtain k where "snd (prune_builds w limit p (sort bs) 0 tr) =
      tr @ map (\<lambda>b. (activityName w p b, OverLimit)) (take k (drop 0 (sort bs)))"
    using prune_builds_trace by blast
  then have "marked r tr' = marked r tr"
    using pb Cons.prems by (simp add: marked_def filter_empty_conv)
  then show ?case
    using Cons.IH [OF Cons.prems, of tr'] g pb by (cases e) simp_all
qed

lemma prune_pipelines_error:
  "fst (prune_pipelines w limit gs tr) = Some e \<Longrightarrow>
     (\<exists>n. e = FailedToDeleteActivity n) \<or> (\<exists>j n. e = IndexOutOfRange j n)"
proof (induction gs arbitrary: tr)
  case Nil
  then show ?case by simp
next
  case (Cons g gs)
  obtain p bs where g: "g = (p, bs)" by (cases g)
  obtain e' tr' where pb: "prune_builds w limit p (sort bs) 0 tr = (e', tr')"
    by (cases "prune_builds w limit p (sort bs) 0 tr")
  show ?case
  proof (cases e')
    case None
    then show ?thesis using Cons.IH [of tr'] Cons.prems g pb by simp
  next
    case (Some x)
    then have "fst (prune_builds w limit p (sort bs) 0 tr) = Some e"
      using Cons.prems g pb by simp
    then show ?thesis by (rule prune_builds_error)
  qed
qed

lemma prune_pipelines_no_panic:
  assumes "0 \<le> sint limit"
  shows "fst (prune_pipelines w limit gs tr) \<noteq> Some (IndexOutOfRange j n)"
proof (induction gs arbitrary: tr)
  case Nil
  then show ?case by simp
next
  case (Cons g gs)
  obtain p bs where g: "g = (p, bs)" by (cases g)
  obtain e' tr' where pb: "prune_builds w limit p (sort bs) 0 tr = (e', tr')"
    by (cases "prune_builds w limit p (sort bs) 0 tr")
  have np: "fst (prune_builds w limit p (sort bs) 0 tr) \<noteq> Some (IndexOutOfRange j n)"
    using assms by (rule prune_builds_no_panic) simp
  show ?case
  proof (cases e')
    case None
    then show ?thesis using Cons.IH [of tr'] g pb by simp
  next
    case (Some x)
    then show ?thesis using np g pb by simp
  qed
qed

lemma prune_pipelines_ok:
  assumes "\<forall>t n. Delete w t n" and "0 \<le> sint limit"
  shows "prune_pipelines w limit gs tr = (None, tr @ concat (map (over_limit w limit) gs))"
proof (induction gs arbitrary: tr)
  case Nil
  then show ?case by simp
next
  case (Cons g gs)
  obtain p bs where g: "g = (p, bs)" by (cases g)
  have "sint (word_of_nat (length (sort bs)) - limit :: go_int) \<le> int (length (sort bs))"
    using assms(2) by (rule loop_bound_le_length)
  from prune_builds_ok [OF assms(1) this, of 0 p tr]
  have "prune_builds w limit p (sort bs) 0 tr = (None, tr @ over_limit w limit g)"
    by (simp add: over_limit_def g)
  then show ?case using Cons.IH g by simp
qed

lemma prune_pipelines_names:
  "(n, OverLimit) \<in> set (snd (prune_pipelines w limit gs tr)) \<Longrightarrow>
     (n, OverLimit) \<in> set tr \<or> (\<exists>g\<in>set gs. \<exists>b\<in>set (snd g). n = activityName w (fst g) b)"
proof (induction gs arbitrary: tr)
  case Nil
  then show ?case by simp
next
  case (Cons g gs)
  obtain p bs where g: "g = (p, bs)" by (cases g)
  obtain e' tr' where pb: "prune_builds w limit p (sort bs) 0 tr = (e', tr')"
    by (cases "prune_builds w limit p (sort bs) 0 tr")
  obtain k where "snd (prune_builds w limit p (sort bs) 0 tr) =
      tr @ map (\<lambda>b. (activityName w p b, OverLimit)) (take k (drop 0 (sort bs)))"
    using prune_builds_trace by blast
  then have tr': "tr' = tr @ map (\<lambda>b. (activityName w p b, OverLimit)) (take k (sort bs))"
    using pb by simp
  have step: "(n, OverLimit) \<in> set tr' \<Longrightarrow>
      (n, OverLimit) \<in> set tr \<or> (\<exists>b\<in>set bs. n = activityName w p b)"
  proof -
    assume "(n, OverLimit) \<in> set tr'"
    then consider "(n, OverLimit) \<in> set tr" | b where "b \<in> set (take k (sort bs))" "n = activityName w p b"
      unfolding tr' by auto
    then show ?thesis
    proof cases
      case 1
      then show ?thesis by simp
    next
      case 2
      then have "b \<in> set bs" using set_take_subset [of k "sort bs"] by auto
      then show ?thesis using 2 by blast
    qed
  qed
  show ?case
  proof (cases e')
    case None
    then have "(n, OverLimit) \<in> set (snd (prune_pipelines w limit gs tr'))"
      using Cons.prems g pb by simp
    from Cons.IH [OF this] step show ?thesis using g by auto
  next
    case (Some x)
    then have "(n, OverLimit) \<in> set tr'" using Cons.prems g pb by simp
    from step [OF this] show ?thesis using g by auto
  qed
qed

lemma builds_in_Nil [simp]: "builds_in [] = {}"
  by (simp add: builds_in_def)

lemma builds_in_Cons [simp]: "builds_in ((q, bs) # m) = ({q} \<times> set bs) \<union> builds_in m"
  by (simp add: builds_in_def)

lemma builds_in_append_build: "builds_in (append_build p b m) = insert (p, b) (builds_in m)"
  by (induction p b m rule: append_build.induct) auto

lemma scan_activities_builds:
  "scan_activities w opts prow jobs i items m tr = (e, m', tr') \<Longrightarrow> (p, b) \<in> builds_in m' \<Longrightarrow>
     (p, b) \<in> builds_in m \<or> (\<exists>a\<in>set items. Pipeline a = p \<and> Atoi (Build a) = Some b)"
proof (induction items arbitrary: i m tr)
  case Nil
  then show ?case by simp
next
  case (Cons a items)
  show ?case
  proof (cases "pr_expired (PullRequestHours opts) (Now w i) a")
    case True
    show ?thesis
    proof (cases "Delete w (map fst tr) (Name a)")
      case del: True
      have "scan_activities w opts prow jobs (i + 1) items m (tr @ [(Name a, AgeExpired)]) = (e, m', tr')"
        using Cons.prems(1) True del by simp
      from Cons.IH [OF this Cons.prems(2)] show ?thesis by auto
    next
      case False
      then show ?thesis using Cons.prems True by auto
    qed
  next
    case False
    show ?thesis
    proof (cases "\<not> prow \<and> \<not> matched jobs a \<longrightarrow> Delete w (map fst tr) (Name a)")
      case del: True
      show ?thesis
      proof (cases "Atoi (Build a)")
        case None
        then show ?thesis using Cons.prems scan_Cons_bad [OF False None del] by simp
      next
        case (Some b')
        have "scan_activities w opts prow jobs (Suc i) items (append_build (Pipeline a) b' m)
            (tr @ (if \<not> prow \<and> \<not> matched jobs a then [(Name a, Orphaned)] else [])) = (e, m', tr')"
          using Cons.prems(1) scan_Cons_kept [OF False Some del] by simp
        from Cons.IH [OF this Cons.prems(2)] Some show ?thesis
          by (auto simp: builds_in_append_build)
      qed
    next
      case nodel: False
      then show ?thesis using Cons.prems False by auto
    qed
  qed
qed

lemma scan_activities_rangeOrder:
  "scan_activities (w\<lparr>rangeOrder := f\<rparr>) opts prow jobs i items m tr =
   scan_activities w opts prow jobs i items m tr"
proof (induction items arbitrary: i m tr)
  case Nil
  show ?case by simp
next
  case (Cons a items)
  show ?case
    by (simp only: scan_activities.simps Cons.IH) simp
qed

lemma activityName_rangeOrder: "activityName (w\<lparr>rangeOrder := f\<rparr>) = activityName w"
  by (simp add: activityName_def fun_eq_iff)

lemma over_limit_rangeOrder: "over_limit (w\<lparr>rangeOrder := f\<rparr>) = over_limit w"
  by (simp add: over_limit_def fun_eq_iff activityName_rangeOrder)

lemma mset_concat_map:
  "mset xs = mset ys \<Longrightarrow> mset (concat (map f xs)) = mset (concat (map f ys))"
proof -
  assume a: "mset xs = mset ys"
  have "\<And>zs. mset (concat (map f zs)) = (\<Sum>z\<in>#mset zs. mset (f z))"
    by (induct_tac zs) simp_all
  then show ?thesis using a by simp
qed

section \<open>The claims\<close>

subsection \<open>C4: the revision cap\<close>





subsection \<open>C10: the index of the revision loop\<close>

lemma gcActivities_no_panic:
  assumes "0 \<le> sint (RevisionHistoryLimit opts)"
  shows "fst (gcActivities w opts prow jobs items) \<noteq> Some (IndexOutOfRange j n)"
proof -
  obtain e m tr where s: "scan_activities w opts prow jobs 0 items [] [] = (e, m, tr)"
    by (cases "scan_activities w opts prow jobs 0 items [] []")
  show ?thesis
  proof (cases e)
    case None
    then show ?thesis
      using s prune_pipelines_no_panic [OF assms, of w "rangeOrder w m" tr j n]
      by (simp add: gcActivities_def)
  next
    case (Some x)
    then have "fst (scan_activities w opts prow jobs 0 items [] []) = Some x" using s by simp
    then have "(\<exists>n. x = DeleteError n) \<or> (\<exists>s. x = ConversionError s)"
      by (rule scan_activities_error)
    then show ?thesis using s Some by (auto simp: gcActivities_def)
  qed
qed

text \<open>
  Claim C10. When the revision history limit is not negative, no read \<open>builds[i]\<close>
  of the revision loop is out of range: neither the loops nor the whole method end in
  the index panic, whatever the records, the store, the clock and the order of the map.
  The bound rests on the sign of the limit: with a negative limit (and
  \<open>len(builds) - limit\<close> still a 64-bit value) and a store that deletes what it is
  asked to, the loop runs past the end of the slice and panics at index \<open>len(builds)\<close>.
\<close>

theorem revision_loop_index_in_range:
  "(0 \<le> sint (RevisionHistoryLimit opts) \<longrightarrow>
      fst (gcActivities w opts prow jobs items) \<noteq> Some (IndexOutOfRange j n) \<and>
      fst (Run w opts) \<noteq> Some (IndexOutOfRange j n)) \<and>
   ((\<forall>t n. Delete w t n) \<and> sint limit < 0 \<and> int (length builds) - sint limit < 2 ^ 63 \<longrightarrow>
      fst (prune_builds w limit pipeline builds 0 tr) =
        Some (IndexOutOfRange (length builds) (length builds)))"
proof (intro conjI impI)
  assume l: "0 \<le> sint (RevisionHistoryLimit opts)"
  then show "fst (gcActivities w opts prow jobs items) \<noteq> Some (IndexOutOfRange j n)"
    by (rule gcActivities_no_panic)
  have "\<And>p js xs. fst (gcActivities w opts p js xs) \<noteq> Some (IndexOutOfRange j n)"
    using l by (rule gcActivities_no_panic)
  then show "fst (Run w opts) \<noteq> Some (IndexOutOfRange j n)"
    by (simp add: Run_def split: sum.splits)
next
  assume "(\<forall>t n. Delete w t n) \<and> sint limit < 0 \<and> int (length builds) - sint limit < 2 ^ 63"
  then show "fst (prune_builds w limit pipeline builds 0 tr) =
        Some (IndexOutOfRange (length builds) (length builds))"
    using prune_builds_panics [of w limit builds 0 pipeline tr] by simp
qed

theorem revision_loop_index_in_range_witness:
  "fst (gcActivities (stub_world (\<lambda>_. 0)) \<lparr>RevisionHistoryLimit = 0, PullRequestHours = 48\<rparr> True []
      [\<lparr>Name = ''app-1'', Pipeline = ''app'', Build = ''1'', CompletedTimestamp = None\<rparr>])
     \<noteq> Some (IndexOutOfRange 1 1) \<and>
   fst (prune_builds (stub_world (\<lambda>_. 0)) (- 1) ''app'' [1] 0 []) = Some (IndexOutOfRange 1 1)"
  using revision_loop_index_in_range
    [of "\<lparr>RevisionHistoryLimit = 0, PullRequestHours = 48\<rparr>" "stub_world (\<lambda>_. 0)" True "[]"
        "[\<lparr>Name = ''app-1'', Pipeline = ''app'', Build = ''1'', CompletedTimestamp = None\<rparr>]"
        1 1 "- 1" "[1]" "''app''" "[]"]
  by (simp add: stub_world_def)

end
